theory Spec2Isabelle
  imports Main
begin

section \<open>The page-view counter of \<^verbatim>\<open>web-app/server.js\<close>\<close>

text \<open>
  The \<^verbatim>\<open>GET /\<close> handler of the web application shows a page-view total. It keeps
  the durable count in the MySQL table \<^verbatim>\<open>visitor_count\<close> (row \<^verbatim>\<open>id = 1\<close>) and a
  copy of it in Redis under the key \<^verbatim>\<open>page_views_total\<close>. This theory embeds the
  handler as HOL functions over an explicit state of the two backing services and
  proves the properties of the counter.

  Conventions of the embedding:
  \<^item> every \<^verbatim>\<open>await\<close> of the handler is one command sent to a backing service; a
    command either completes or rejects (the promise throws), as an \<open>outcome\<close>
    record says for each of the five commands of one request; a rejected command
    leaves its service unchanged;
  \<^item> the connection to Redis is up while a request runs, or is lost when some of
    its commands have settled; a lost connection ends the process (see \<open>serve\<close>);
  \<^item> JavaScript numbers are modelled by \<open>int\<close>, which is exact for safe integers
    (magnitude below \<open>2^53\<close>) and so for every value of an \<^verbatim>\<open>INT\<close> column;
  \<^item> MySQL runs in its default strict SQL mode: an \<^verbatim>\<open>UPDATE\<close> whose result does not
    fit the \<^verbatim>\<open>INT\<close> column is rejected with an out-of-range error.
\<close>

subsection \<open>JavaScript values: truthiness, \<^verbatim>\<open>toString\<close> and \<^verbatim>\<open>parseInt\<close>\<close>

text \<open>
  The variable \<^verbatim>\<open>totalViews\<close> holds \<^verbatim>\<open>null\<close> or a string (the reply of Redis
  \<^verbatim>\<open>GET\<close>) or a number (the \<^verbatim>\<open>count\<close> column read from MySQL).
\<close>

datatype jsval = JNull | JStr string | JNum int

text \<open>\<^verbatim>\<open>!totalViews\<close> is \<open>\<not> truthy totalViews\<close>: \<^verbatim>\<open>null\<close>, the empty string and \<^verbatim>\<open>0\<close> are falsy.\<close>

fun truthy :: "jsval \<Rightarrow> bool" where
  "truthy JNull = False"
| "truthy (JStr s) = (s \<noteq> [])"
| "truthy (JNum n) = (n \<noteq> 0)"

text \<open>\<^verbatim>\<open>Number.prototype.toString\<close> on an integer: decimal digits, a minus sign first when negative.\<close>

definition digit_char :: "nat \<Rightarrow> char" where
  "digit_char d = char_of (48 + d)"

fun digits :: "nat \<Rightarrow> string" where
  "digits n = (if n < 10 then [digit_char n] else digits (n div 10) @ [digit_char (n mod 10)])"

declare digits.simps [simp del]

definition toString :: "int \<Rightarrow> string" where
  "toString n = (if n < 0 then CHR ''-'' # digits (nat (- n)) else digits (nat n))"

text \<open>
  \<^verbatim>\<open>parseInt(string)\<close> with no radix argument: skip leading white space, read an
  optional sign, read the prefix \<^verbatim>\<open>0x\<close> or \<^verbatim>\<open>0X\<close> that selects radix 16 instead of
  10, then take the longest run of digits of that radix. With no digit the result is
  \<^verbatim>\<open>NaN\<close>, which is \<open>None\<close> here. A value that is no string is converted to one
  first. The result is the mathematical value of the digits (\<^verbatim>\<open>mathInt\<close> in
  ECMAScript); its conversion to a double changes nothing for a safe integer, which
  every \<^verbatim>\<open>INT\<close> count is, and is not modelled beyond.

  A string is the UTF-8 bytes Redis holds. White space and line terminators of
  JavaScript are the one-byte characters TAB, LF, VT, FF, CR and SP, the two bytes of
  U+00A0, and the three bytes of U+1680, U+2000 to U+200A, U+2028, U+2029, U+202F,
  U+205F, U+3000 and U+FEFF.
\<close>

definition isWhiteSpace :: "char \<Rightarrow> bool" where
  "isWhiteSpace ch = (of_char ch \<in> {9, 10, 11, 12, 13, 32 :: nat})"

definition isWhiteSpace2 :: "char \<Rightarrow> char \<Rightarrow> bool" where
  "isWhiteSpace2 a b = (of_char a = (194 :: nat) \<and> of_char b = (160 :: nat))"

definition isWhiteSpace3 :: "char \<Rightarrow> char \<Rightarrow> char \<Rightarrow> bool" where
  "isWhiteSpace3 a b c =
     (let x = (of_char a :: nat); y = (of_char b :: nat); z = (of_char c :: nat) in
      x = 225 \<and> y = 154 \<and> z = 128
      \<or> x = 226 \<and> y = 128 \<and> (128 \<le> z \<and> z \<le> 138 \<or> z = 168 \<or> z = 169 \<or> z = 175)
      \<or> x = 226 \<and> y = 129 \<and> z = 159
      \<or> x = 227 \<and> y = 128 \<and> z = 128
      \<or> x = 239 \<and> y = 187 \<and> z = 191)"

fun trimStart :: "string \<Rightarrow> string" where
  "trimStart (a # b # c # S) =
     (if isWhiteSpace a then trimStart (b # c # S)
      else if isWhiteSpace2 a b then trimStart (c # S)
      else if isWhiteSpace3 a b c then trimStart S
      else a # b # c # S)"
| "trimStart [a, b] =
     (if isWhiteSpace a then trimStart [b]
      else if isWhiteSpace2 a b then []
      else [a, b])"
| "trimStart [a] = (if isWhiteSpace a then [] else [a])"
| "trimStart [] = []"

definition digit_of :: "char \<Rightarrow> nat" where
  "digit_of ch =
     (let n = of_char ch in
      if 48 \<le> n \<and> n \<le> 57 then n - 48
      else if 97 \<le> n \<and> n \<le> 122 then n - 87
      else if 65 \<le> n \<and> n \<le> 90 then n - 55
      else 36)"

definition mathInt :: "nat \<Rightarrow> string \<Rightarrow> nat" where
  "mathInt R Z = foldl (\<lambda>acc ch. acc * R + digit_of ch) 0 Z"

definition digitsValue :: "nat \<Rightarrow> string \<Rightarrow> int option" where
  "digitsValue R S =
     (let Z = takeWhile (\<lambda>ch. digit_of ch < R) S
      in if Z = [] then None else Some (int (mathInt R Z)))"

fun stripPrefix :: "string \<Rightarrow> int option" where
  "stripPrefix (a # b # S) =
     (if a = CHR ''0'' \<and> (b = CHR ''x'' \<or> b = CHR ''X'') then digitsValue 16 S
      else digitsValue 10 (a # b # S))"
| "stripPrefix S = digitsValue 10 S"

fun signed :: "string \<Rightarrow> int option" where
  "signed (c # S) =
     (if c = CHR ''-'' then map_option uminus (stripPrefix S)
      else if c = CHR ''+'' then stripPrefix S
      else stripPrefix (c # S))"
| "signed [] = None"

definition parseInt_string :: "string \<Rightarrow> int option" where
  "parseInt_string inputString = signed (trimStart inputString)"

fun parseInt :: "jsval \<Rightarrow> int option" where
  "parseInt (JStr s) = parseInt_string s"
| "parseInt (JNum n) = parseInt_string (toString n)"
| "parseInt JNull = parseInt_string ''null''"

text \<open>
  \<^verbatim>\<open>Number.isSafeInteger\<close>: the integers a double holds exactly together with their
  neighbours, up to \<^verbatim>\<open>Number.MAX_SAFE_INTEGER\<close>, which is \<open>2^53 - 1\<close>.
\<close>

definition MAX_SAFE_INTEGER :: int where
  "MAX_SAFE_INTEGER = 9007199254740991"

definition isSafeInteger :: "int \<Rightarrow> bool" where
  "isSafeInteger n = (- MAX_SAFE_INTEGER \<le> n \<and> n \<le> MAX_SAFE_INTEGER)"

text \<open>The characters \<open>digits\<close> produces, for the proofs about \<open>parseInt\<close>.\<close>

definition decimal :: "char \<Rightarrow> bool" where
  "decimal ch = (\<exists>d<10. ch = digit_char d)"

subsection \<open>The backing services\<close>

text \<open>
  Redis maps a key to a value and the seconds it has left to live; a key that has
  expired is not in the map. The table
  \<^verbatim>\<open>visitor_count\<close> maps the primary key \<^verbatim>\<open>id\<close> to the column \<^verbatim>\<open>count INT DEFAULT 0\<close>,
  which may be \<^verbatim>\<open>NULL\<close> (\<open>None\<close>). The \<open>trace\<close> lists the commands of the handler
  that have settled, in order, the rejected ones included.
\<close>

type_synonym redis = "string \<rightharpoonup> string \<times> nat"
type_synonym table = "nat \<rightharpoonup> int option"

datatype command =
    Get string
  | Select
  | SetEx string nat string
  | Update
  | Del string

record world =
  redis :: redis
  visitor_count :: table
  trace :: "command list"

text \<open>Which of the commands of one request complete (\<open>True\<close>) and which reject.\<close>

record outcome =
  get_ok :: bool
  select_ok :: bool
  setEx_ok :: bool
  update_ok :: bool
  del_ok :: bool

definition all_ok :: "outcome \<Rightarrow> bool" where
  "all_ok bk = (get_ok bk \<and> select_ok bk \<and> setEx_ok bk \<and> update_ok bk \<and> del_ok bk)"

definition healthy :: outcome where
  "healthy = \<lparr>get_ok = True, select_ok = True, setEx_ok = True, update_ok = True, del_ok = True\<rparr>"

text \<open>
  The error a rejected command throws. A rejected MySQL query is the error kind
  \<open>StoreUnavailable\<close>, a rejected Redis command the kind \<open>CacheUnavailable\<close>.
\<close>

datatype error = Rejected command

fun StoreUnavailable :: "error \<Rightarrow> bool" where
  "StoreUnavailable (Rejected Select) = True"
| "StoreUnavailable (Rejected Update) = True"
| "StoreUnavailable (Rejected c) = False"

definition CacheUnavailable :: "error \<Rightarrow> bool" where
  "CacheUnavailable e = (\<not> StoreUnavailable e)"

definition issue :: "command \<Rightarrow> world \<Rightarrow> world" where
  "issue c w = w\<lparr>trace := trace w @ [c]\<rparr>"

text \<open>\<^verbatim>\<open>redisClient.get(key)\<close>: the value, or \<^verbatim>\<open>null\<close> when the key is absent or expired.\<close>

definition redis_get :: "string \<Rightarrow> world \<Rightarrow> jsval" where
  "redis_get k w = (case redis w k of None \<Rightarrow> JNull | Some (v, ttl) \<Rightarrow> JStr v)"

definition redis_setEx :: "string \<Rightarrow> nat \<Rightarrow> string \<Rightarrow> world \<Rightarrow> world" where
  "redis_setEx k ttl v w = w\<lparr>redis := (redis w)(k \<mapsto> (v, ttl))\<rparr>"

definition redis_del :: "string \<Rightarrow> world \<Rightarrow> world" where
  "redis_del k w = w\<lparr>redis := (redis w)(k := None)\<rparr>"

text \<open>\<open>d\<close> seconds pass: Redis drops the entries whose time to live has run out.\<close>

definition elapse :: "nat \<Rightarrow> world \<Rightarrow> world" where
  "elapse d w =
     w\<lparr>redis := (\<lambda>k. case redis w k of
                        None \<Rightarrow> None
                      | Some (v, ttl) \<Rightarrow> if ttl \<le> d then None else Some (v, ttl - d))\<rparr>"

text \<open>The largest value of a MySQL \<^verbatim>\<open>INT\<close> column.\<close>

definition INT_MAX :: int where
  "INT_MAX = 2147483647"

text \<open>\<^verbatim>\<open>SELECT count FROM visitor_count WHERE id = 1\<close>: the rows found, each by its \<^verbatim>\<open>count\<close>.\<close>

definition mysql_select :: "world \<Rightarrow> int option list" where
  "mysql_select w = (case visitor_count w 1 of None \<Rightarrow> [] | Some c \<Rightarrow> [c])"

text \<open>
  \<^verbatim>\<open>UPDATE visitor_count SET count = count + 1 WHERE id = 1\<close>. No row matches: nothing
  changes. \<^verbatim>\<open>NULL + 1\<close> is \<^verbatim>\<open>NULL\<close>. A sum above \<open>INT_MAX\<close> is rejected (\<open>None\<close>).
\<close>

definition mysql_update :: "world \<Rightarrow> world option" where
  "mysql_update w =
     (case visitor_count w 1 of
        None \<Rightarrow> Some w
      | Some None \<Rightarrow> Some w
      | Some (Some c) \<Rightarrow>
          if c + 1 > INT_MAX then None
          else Some (w\<lparr>visitor_count := (visitor_count w)(1 \<mapsto> Some (c + 1))\<rparr>))"

text \<open>
  The state \<^verbatim>\<open>initializeDatabase\<close> sets up, with the counter at \<open>c\<close>: the single row
  \<^verbatim>\<open>id = 1\<close>, nothing in the cache, no command sent yet.
\<close>

definition seeded :: "int \<Rightarrow> world" where
  "seeded c = \<lparr>redis = Map.empty, visitor_count = [1 \<mapsto> Some c], trace = []\<rparr>"

subsection \<open>The handler of \<^verbatim>\<open>GET /\<close>\<close>

definition cacheKey :: string where
  "cacheKey = ''page_views_total''"

text \<open>\<^verbatim>\<open>rows[0]?.count || 0\<close>: no row, a \<^verbatim>\<open>NULL\<close> count and the count \<^verbatim>\<open>0\<close> all give \<^verbatim>\<open>0\<close>.\<close>

fun count_or_zero :: "int option list \<Rightarrow> int" where
  "count_or_zero [] = 0"
| "count_or_zero (None # rows) = 0"
| "count_or_zero (Some c # rows) = (if c \<noteq> 0 then c else 0)"

text \<open>
  Lines 145 to 157: read the total from the cache; when the reply is falsy, read it
  from MySQL and cache it for 60 seconds.
\<close>

definition readTotal :: "outcome \<Rightarrow> world \<Rightarrow> (error + jsval) \<times> world" where
  "readTotal bk w0 =
     (let w1 = issue (Get cacheKey) w0 in
      if \<not> get_ok bk then (Inl (Rejected (Get cacheKey)), w1)
      else
        let totalViews = redis_get cacheKey w1 in
        if truthy totalViews then (Inr totalViews, w1)
        else
          let w2 = issue Select w1 in
          if \<not> select_ok bk then (Inl (Rejected Select), w2)
          else
            let rows = mysql_select w2;
                totalViews = count_or_zero rows;
                cmd = SetEx cacheKey 60 (toString totalViews);
                w3 = issue cmd w2
            in if \<not> setEx_ok bk then (Inl (Rejected cmd), w3)
               else (Inr (JNum totalViews), redis_setEx cacheKey 60 (toString totalViews) w3))"

text \<open>
  Lines 159 to 169: increment the count in MySQL, delete the cache entry, and show
  \<^verbatim>\<open>parseInt(totalViews) + 1\<close> (\<^verbatim>\<open>NaN + 1\<close> is \<^verbatim>\<open>NaN\<close>).
\<close>

definition countAndInvalidate :: "outcome \<Rightarrow> jsval \<Rightarrow> world \<Rightarrow> (error + int option) \<times> world" where
  "countAndInvalidate bk totalViews w3 =
     (let w4 = issue Update w3 in
      case (if update_ok bk then mysql_update w4 else None) of
        None \<Rightarrow> (Inl (Rejected Update), w4)
      | Some w5 \<Rightarrow>
          let w6 = issue (Del cacheKey) w5 in
          if \<not> del_ok bk then (Inl (Rejected (Del cacheKey)), w6)
          else (Inr (map_option (\<lambda>n. n + 1) (parseInt totalViews)), redis_del cacheKey w6))"

text \<open>
  The body of the \<^verbatim>\<open>try\<close> block: the total to show, or the error thrown by the first
  rejected command.
\<close>

definition recordView :: "outcome \<Rightarrow> world \<Rightarrow> (error + int option) \<times> world" where
  "recordView bk w =
     (case readTotal bk w of
        (Inl e, w') \<Rightarrow> (Inl e, w')
      | (Inr totalViews, w') \<Rightarrow> countAndInvalidate bk totalViews w')"

text \<open>
  The same body, one command at a time: a request in flight is a \<open>task\<close>, and \<open>step\<close>
  sends its next command. Between two commands of one request the commands of other
  requests may run.
\<close>

datatype task =
    Start
  | Missed
  | Fetched int
  | Counted jsval
  | Updated jsval
  | Finished "error + int option"

fun step :: "outcome \<Rightarrow> task \<Rightarrow> world \<Rightarrow> task \<times> world" where
  "step bk Start w =
     (let w1 = issue (Get cacheKey) w in
      if \<not> get_ok bk then (Finished (Inl (Rejected (Get cacheKey))), w1)
      else
        let totalViews = redis_get cacheKey w1 in
        if truthy totalViews then (Counted totalViews, w1) else (Missed, w1))"
| "step bk Missed w =
     (let w2 = issue Select w in
      if \<not> select_ok bk then (Finished (Inl (Rejected Select)), w2)
      else (Fetched (count_or_zero (mysql_select w2)), w2))"
| "step bk (Fetched totalViews) w =
     (let cmd = SetEx cacheKey 60 (toString totalViews);
          w3 = issue cmd w
      in if \<not> setEx_ok bk then (Finished (Inl (Rejected cmd)), w3)
         else (Counted (JNum totalViews), redis_setEx cacheKey 60 (toString totalViews) w3))"
| "step bk (Counted totalViews) w =
     (let w4 = issue Update w in
      case (if update_ok bk then mysql_update w4 else None) of
        None \<Rightarrow> (Finished (Inl (Rejected Update)), w4)
      | Some w5 \<Rightarrow> (Updated totalViews, w5))"
| "step bk (Updated totalViews) w =
     (let w6 = issue (Del cacheKey) w in
      if \<not> del_ok bk then (Finished (Inl (Rejected (Del cacheKey))), w6)
      else (Finished (Inr (map_option (\<lambda>n. n + 1) (parseInt totalViews))), redis_del cacheKey w6))"
| "step bk (Finished r) w = (Finished r, w)"

fun exec :: "nat \<Rightarrow> outcome \<Rightarrow> task \<times> world \<Rightarrow> task \<times> world" where
  "exec 0 bk c = c"
| "exec (Suc n) bk (t, w) = exec n bk (step bk t w)"

text \<open>
  The handler: the session counter of lines 138 to 142, the body, and the \<^verbatim>\<open>catch\<close>
  block, which answers every error with status 500 and the text \<^verbatim>\<open>Serverfehler\<close>.
  The result is the response, the session counter and the state of the services.
\<close>

record view =
  sessionViews :: nat
  totalViews :: "int option"

datatype response = Render view | Serverfehler

definition status :: "response \<Rightarrow> nat" where
  "status r = (case r of Render v \<Rightarrow> 200 | Serverfehler \<Rightarrow> 500)"

definition bump :: "nat option \<Rightarrow> nat" where
  "bump views = (case views of None \<Rightarrow> 1 | Some n \<Rightarrow> if n = 0 then 1 else n + 1)"

definition get_root :: "outcome \<Rightarrow> nat option \<Rightarrow> world \<Rightarrow> response \<times> nat \<times> world" where
  "get_root bk session_views w =
     (let views = bump session_views in
      case recordView bk w of
        (Inl e, w') \<Rightarrow> (Serverfehler, views, w')
      | (Inr shown, w') \<Rightarrow> (Render \<lparr>sessionViews = views, totalViews = shown\<rparr>, views, w'))"

text \<open>
  The process around the handler. \<^verbatim>\<open>server.js\<close> creates the Redis client (lines 18 to
  24) and connects it (lines 27 to 30) and nowhere registers a listener for the
  client's \<^verbatim>\<open>error\<close> event. The client reports a lost connection through that event,
  and in Node an \<^verbatim>\<open>error\<close> event that nobody listens to ends the process. So a request
  is answered only when the connection lasts until the handler has finished:
  \<open>LostAfter k\<close> says that the connection is lost when \<open>k\<close> commands of the request
  have settled, and the services are then left as those \<open>k\<close> commands made them.
\<close>

datatype link = Up | LostAfter nat

datatype served = Responded response | ProcessExit

definition serve :: "link \<Rightarrow> outcome \<Rightarrow> nat option \<Rightarrow> world \<Rightarrow> served \<times> world" where
  "serve redis_link bk session_views w =
     (case redis_link of
        Up \<Rightarrow> (case get_root bk session_views w of (r, views, w') \<Rightarrow> (Responded r, w'))
      | LostAfter k \<Rightarrow>
          (case exec k bk (Start, w) of
             (t, w') \<Rightarrow>
               (case t of
                  Finished r \<Rightarrow> (Responded (fst (get_root bk session_views w)), w')
                | _ \<Rightarrow> (ProcessExit, w'))))"

subsection \<open>Sequences of requests and requests in flight together\<close>

text \<open>
  Requests one after the other: each call starts \<open>d\<close> seconds after the one before
  has answered and has its own outcome.
\<close>

fun recordViews :: "(nat \<times> outcome) list \<Rightarrow> world \<Rightarrow> (error + int option) list \<times> world" where
  "recordViews [] w = ([], w)"
| "recordViews ((d, bk) # calls) w =
     (let (r, w') = recordView bk (elapse d w);
          (rs, w'') = recordViews calls w'
      in (r # rs, w''))"

text \<open>
  Requests in flight together: the event loop runs one command of one request at a
  time (\<open>Run i\<close> is the next command of request \<open>i\<close>), in any order the \<open>schedule\<close>
  says, and time may pass in between (\<open>Wait d\<close>).
\<close>

datatype event = Run nat | Wait nat

fun fire :: "event \<Rightarrow> (outcome \<times> task) list \<times> world \<Rightarrow> (outcome \<times> task) list \<times> world" where
  "fire (Run i) (pool, w) =
     (if i < length pool then
        let (bk, t) = pool ! i;
            (t', w') = step bk t w
        in (pool[i := (bk, t')], w')
      else (pool, w))"
| "fire (Wait d) (pool, w) = (pool, elapse d w)"

definition concurrent :: "outcome list \<Rightarrow> event list \<Rightarrow> world \<Rightarrow> (outcome \<times> task) list \<times> world" where
  "concurrent bks schedule w = foldl (\<lambda>c e. fire e c) (map (\<lambda>bk. (bk, Start)) bks, w) schedule"

subsection \<open>Notions used in the statements and proofs\<close>

text \<open>The seeded state with a cache entry for \<^verbatim>\<open>page_views_total\<close> in place.\<close>

definition cached :: "string \<Rightarrow> nat \<Rightarrow> int \<Rightarrow> world" where
  "cached v ttl c = (seeded c)\<lparr>redis := [cacheKey \<mapsto> (v, ttl)]\<rparr>"

text \<open>
  The state a request leaves behind when its \<^verbatim>\<open>DEL\<close> is rejected, starting from the
  seeded state at 7: the store has moved on to 8 and the cache still says \<^verbatim>\<open>"7"\<close>.
\<close>

definition stale :: world where
  "stale = snd (recordView (healthy\<lparr>del_ok := False\<rparr>) (seeded 7))"

text \<open>The row holds \<open>c\<close> and the cache entry, when there is one, is the decimal string of \<open>c\<close>.\<close>

definition in_step :: "world \<Rightarrow> int \<Rightarrow> bool" where
  "in_step w c =
     (visitor_count w 1 = Some (Some c)
      \<and> (case redis w cacheKey of None \<Rightarrow> True | Some (v, ttl) \<Rightarrow> v = toString c))"

text \<open>
  \<open>incremented t\<close> is 1 when the \<^verbatim>\<open>UPDATE\<close> of the request has completed, 0 before and
  when the request failed earlier; \<open>tally\<close> adds it up over the requests in flight.
  \<open>completed t\<close>: the request has rendered its page.
\<close>

fun incremented :: "task \<Rightarrow> int" where
  "incremented (Updated v) = 1"
| "incremented (Finished (Inr shown)) = 1"
| "incremented (Finished (Inl (Rejected (Del k)))) = 1"
| "incremented t = 0"

definition tally :: "(outcome \<times> task) list \<Rightarrow> int" where
  "tally pool = sum_list (map (\<lambda>p. incremented (snd p)) pool)"

fun completed :: "task \<Rightarrow> bool" where
  "completed (Finished (Inr shown)) = True"
| "completed t = False"

text \<open>
  How far a request has come, counted in commands, and whether it has failed.
\<close>

fun stage :: "task \<Rightarrow> nat" where
  "stage Start = 0"
| "stage Missed = 1"
| "stage (Fetched n) = 2"
| "stage (Counted v) = 3"
| "stage (Updated v) = 4"
| "stage (Finished r) = 5"

fun failed :: "task \<Rightarrow> bool" where
  "failed (Finished (Inl e)) = True"
| "failed t = False"

section \<open>Properties\<close>

subsection \<open>\<^verbatim>\<open>parseInt\<close> reads back what \<^verbatim>\<open>toString\<close> writes\<close>

lemma of_char_digit_char: "d < 10 \<Longrightarrow> of_char (digit_char d) = 48 + d"
  by (simp add: digit_char_def)

lemma digit_of_digit_char: "d < 10 \<Longrightarrow> digit_of (digit_char d) = d"
  by (simp add: digit_of_def of_char_digit_char)

lemma decimal_digit_of: "decimal ch \<Longrightarrow> digit_of ch < 10"
  by (auto simp: decimal_def digit_of_digit_char)

lemma decimal_not_special:
  assumes "decimal ch"
  shows "\<not> isWhiteSpace ch" "ch \<noteq> CHR ''-''" "ch \<noteq> CHR ''+''" "ch \<noteq> CHR ''x''" "ch \<noteq> CHR ''X''"
proof -
  from assms obtain d where d: "d < 10" "ch = digit_char d"
    by (auto simp: decimal_def)
  then have n: "of_char ch = 48 + d"
    by (simp add: of_char_digit_char)
  show "\<not> isWhiteSpace ch"
    using n d by (simp add: isWhiteSpace_def)
  show "ch \<noteq> CHR ''-''" using n by auto
  show "ch \<noteq> CHR ''+''" using n by auto
  show "ch \<noteq> CHR ''x''" using n d by auto
  show "ch \<noteq> CHR ''X''" using n d by auto
qed

lemma digits_decimal: "ch \<in> set (digits n) \<Longrightarrow> decimal ch"
proof (induction n arbitrary: ch rule: digits.induct)
  case (1 n)
  show ?case
  proof (cases "n < 10")
    case True
    with "1.prems" show ?thesis
      by (auto simp: digits.simps [of n] decimal_def)
  next
    case False
    have "decimal (digit_char (n mod 10))"
      unfolding decimal_def by (rule exI [of _ "n mod 10"]) simp
    with False "1.prems" "1.IH" show ?thesis
      by (auto simp: digits.simps [of n])
  qed
qed

lemma digits_nonempty: "digits n \<noteq> []"
  by (subst digits.simps) simp

lemma mathInt_snoc: "mathInt R (Z @ [ch]) = mathInt R Z * R + digit_of ch"
  by (simp add: mathInt_def)

lemma mathInt_digits: "mathInt 10 (digits n) = n"
proof (induction n rule: digits.induct)
  case (1 n)
  show ?case
  proof (cases "n < 10")
    case True
    then show ?thesis
      by (simp add: digits.simps [of n] mathInt_def digit_of_digit_char)
  next
    case False
    with "1.IH" show ?thesis
      by (simp add: digits.simps [of n] mathInt_snoc digit_of_digit_char)
  qed
qed

lemma digitsValue_digits: "digitsValue 10 (digits n) = Some (int n)"
proof -
  have tw: "takeWhile (\<lambda>ch. digit_of ch < 10) (digits n) = digits n"
    by (rule takeWhile_eq_all_conv [THEN iffD2]) (auto dest: digits_decimal decimal_digit_of)
  show ?thesis
    unfolding digitsValue_def Let_def tw
    by (simp add: digits_nonempty mathInt_digits)
qed

lemma stripPrefix_digits: "stripPrefix (digits n) = Some (int n)"
proof (cases "digits n")
  case Nil
  with digits_nonempty [of n] show ?thesis by simp
next
  case outer: (Cons a S)
  show ?thesis
  proof (cases S)
    case Nil
    with outer digitsValue_digits [of n] show ?thesis by simp
  next
    case (Cons b T)
    with outer have "decimal b"
      using digits_decimal [of b n] by simp
    then have "b \<noteq> CHR ''x''" "b \<noteq> CHR ''X''"
      by (rule decimal_not_special)+
    with outer Cons digitsValue_digits [of n] show ?thesis by simp
  qed
qed

lemma signed_digits: "signed (digits n) = Some (int n)"
proof (cases "digits n")
  case Nil
  with digits_nonempty [of n] show ?thesis by simp
next
  case (Cons c S)
  then have "decimal c"
    using digits_decimal [of c n] by simp
  then have "c \<noteq> CHR ''-''" "c \<noteq> CHR ''+''"
    by (rule decimal_not_special)+
  with Cons stripPrefix_digits [of n] show ?thesis by simp
qed

lemma trimStart_ascii:
  assumes "\<not> isWhiteSpace c" and "of_char c < (128 :: nat)"
  shows "trimStart (c # S) = c # S"
proof (cases S)
  case Nil
  with assms show ?thesis by simp
next
  case outer: (Cons b T)
  from assms(2) have two: "\<not> isWhiteSpace2 c b"
    by (simp add: isWhiteSpace2_def)
  show ?thesis
  proof (cases T)
    case Nil
    with outer assms two show ?thesis by simp
  next
    case (Cons d U)
    from assms(2) have "\<not> isWhiteSpace3 c b d"
      by (simp add: isWhiteSpace3_def Let_def)
    with outer Cons assms two show ?thesis by simp
  qed
qed

lemma trimStart_digits: "trimStart (digits n) = digits n"
proof (cases "digits n")
  case Nil
  then show ?thesis by simp
next
  case (Cons c S)
  then have c: "decimal c"
    using digits_decimal [of c n] by simp
  then have "\<not> isWhiteSpace c"
    by (rule decimal_not_special)
  moreover from c have "of_char c < (128 :: nat)"
    by (auto simp: decimal_def of_char_digit_char)
  ultimately show ?thesis
    using Cons by (simp add: trimStart_ascii)
qed

lemma parseInt_toString: "parseInt_string (toString n) = Some n"
proof (cases "n < 0")
  case False
  then show ?thesis
    by (simp add: toString_def parseInt_string_def trimStart_digits signed_digits)
next
  case True
  have "\<not> isWhiteSpace CHR ''-''" "of_char CHR ''-'' < (128 :: nat)"
    by (simp_all add: isWhiteSpace_def)
  then have "trimStart (CHR ''-'' # digits (nat (- n))) = CHR ''-'' # digits (nat (- n))"
    by (rule trimStart_ascii)
  with True show ?thesis
    by (simp add: toString_def parseInt_string_def stripPrefix_digits)
qed

lemma toString_nonempty: "toString n \<noteq> []"
  by (simp add: toString_def digits_nonempty)

lemma truthy_toString: "truthy (JStr (toString n))"
  by (simp add: toString_nonempty)

lemma parseInt_JNum: "parseInt (JNum n) = Some n"
  by (simp add: parseInt_toString)

lemma toString_7: "toString 7 = ''7''"
  by code_simp

lemma parseInt_7: "parseInt_string ''7'' = Some 7"
  by code_simp

subsection \<open>One request\<close>

lemmas backend_defs =
  issue_def redis_get_def redis_setEx_def redis_del_def mysql_select_def mysql_update_def

lemmas recordView_defs =
  recordView_def readTotal_def countAndInvalidate_def Let_def

lemma exec_numeral: "exec (numeral k) bk (t, w) = exec (pred_numeral k) bk (step bk t w)"
  by (simp add: numeral_eq_Suc)

lemma exec_Finished: "exec n bk (Finished r, w) = (Finished r, w)"
  by (induction n) simp_all

text \<open>
  Sending the commands of one request one at a time, with nothing in between, is the
  body of the handler: at most five commands, then the task is finished.
\<close>

lemma exec_recordView:
  "exec 5 bk (Start, w) = (Finished (fst (recordView bk w)), snd (recordView bk w))"
  by (simp add: exec_numeral exec_Finished recordView_defs split: option.splits)

lemma fst_snd_recordView: "recordView bk w = (fst (recordView bk w), snd (recordView bk w))"
  by simp

lemma recordView_Inl_status:
  "recordView bk w = (Inl e, w') \<Longrightarrow> status (fst (get_root bk session_views w)) = 500"
  by (simp add: get_root_def status_def)

text \<open>
  The counter stops at the largest \<^verbatim>\<open>INT\<close>: there the \<^verbatim>\<open>UPDATE\<close> is rejected, the
  request fails and the count stays.
\<close>

lemma recordView_at_INT_MAX:
  "fst (recordView bk (seeded INT_MAX)) \<noteq> Inr shown
   \<and> visitor_count (snd (recordView bk (seeded INT_MAX))) 1 = Some (Some INT_MAX)"
  by (simp add: recordView_defs backend_defs seeded_def)

lemma countAndInvalidate_trace:
  "\<exists>cs. trace (snd (countAndInvalidate bk v w)) = trace w @ cs"
  by (auto simp: countAndInvalidate_def Let_def backend_defs split: option.splits)

lemma exec_add: "exec (m + n) bk c = exec n bk (exec m bk c)"
proof (induction m arbitrary: c)
  case 0
  then show ?case by simp
next
  case (Suc m)
  then show ?case by (cases c) simp
qed

text \<open>A request that has finished after some commands has the result of the handler's body.\<close>

lemma exec_Finished_recordView:
  assumes "exec k bk (Start, w) = (Finished r, w')"
  shows "r = fst (recordView bk w) \<and> w' = snd (recordView bk w)"
proof -
  have "exec (k + 5) bk (Start, w) = exec 5 bk (Finished r, w')"
    using assms by (simp add: exec_add)
  moreover have "exec (5 + k) bk (Start, w) = exec k bk (exec 5 bk (Start, w))"
    by (rule exec_add)
  ultimately have "(Finished r, w') = (Finished (fst (recordView bk w)), snd (recordView bk w))"
    by (simp add: exec_Finished exec_recordView add.commute)
  then show ?thesis by simp
qed

lemma render_needs_cache:
  assumes "fst (get_root bk session_views w) = Render v"
  shows "get_ok bk \<and> del_ok bk \<and> fst (recordView bk w) = Inr (totalViews v)"
  using assms
  by (auto simp: get_root_def recordView_defs backend_defs
      split: if_splits option.splits prod.splits sum.splits)

lemma Select_rejected:
  assumes "recordView bk w = (Inl (Rejected Select), w')"
  shows "w' = w\<lparr>trace := trace w @ [Get cacheKey, Select]\<rparr>"
  using assms
  by (simp add: recordView_defs backend_defs split: if_splits option.splits)

lemma Update_rejected:
  assumes "recordView bk w = (Inl (Rejected Update), w')"
  shows "w' = w\<lparr>trace := trace w @ [Get cacheKey, Update]\<rparr>
         \<or> w' = w\<lparr>redis := (redis w)(cacheKey \<mapsto> (toString (count_or_zero (mysql_select w)), 60)),
                 trace := trace w @
                   [Get cacheKey, Select,
                    SetEx cacheKey 60 (toString (count_or_zero (mysql_select w))), Update]\<rparr>"
  using assms
  by (simp add: recordView_defs backend_defs split: if_splits option.splits)

lemma store_down:
  assumes "\<not> select_ok bk" and "\<not> update_ok bk"
  shows "\<exists>e. fst (recordView bk w) = Inl e"
    and "redis (snd (recordView bk w)) = redis w"
    and "visitor_count (snd (recordView bk w)) = visitor_count w"
  using assms
  by (simp_all add: recordView_defs backend_defs)

text \<open>
  Claim C2. With no cache entry for \<^verbatim>\<open>page_views_total\<close> and the store holding 7, a
  call in which every command completes shows 8 and leaves the store holding 8. Its
  first half reads 7 and leaves the cache holding \<^verbatim>\<open>"7"\<close> with 60 seconds to live; its
  second half starts from that state, and the \<^verbatim>\<open>DEL\<close> at its end is what removes the
  entry again: were the \<^verbatim>\<open>DEL\<close> alone rejected, the call would end with the store at 8
  and the cache still holding \<^verbatim>\<open>"7"\<close>. The commands sent are \<^verbatim>\<open>GET\<close>, \<^verbatim>\<open>SELECT\<close>,
  \<^verbatim>\<open>SETEX page_views_total 60 "7"\<close>, \<^verbatim>\<open>UPDATE\<close> and \<^verbatim>\<open>DEL\<close>, in this order.
\<close>

theorem recordView_miss_at_7:
  assumes "redis w cacheKey = None" and "visitor_count w 1 = Some (Some 7)" and "all_ok bk"
  shows "readTotal bk w =
           (Inr (JNum 7),
            w\<lparr>redis := (redis w)(cacheKey \<mapsto> (''7'', 60)),
              trace := trace w @ [Get cacheKey, Select, SetEx cacheKey 60 ''7'']\<rparr>)
         \<and> recordView bk w =
           countAndInvalidate bk (JNum 7)
             (w\<lparr>redis := (redis w)(cacheKey \<mapsto> (''7'', 60)),
                trace := trace w @ [Get cacheKey, Select, SetEx cacheKey 60 ''7'']\<rparr>)
         \<and> recordView (bk\<lparr>del_ok := False\<rparr>) w =
           (Inl (Rejected (Del cacheKey)),
            w\<lparr>redis := (redis w)(cacheKey \<mapsto> (''7'', 60)),
              visitor_count := (visitor_count w)(1 \<mapsto> Some 8),
              trace := trace w @
                [Get cacheKey, Select, SetEx cacheKey 60 ''7'', Update, Del cacheKey]\<rparr>)
         \<and> recordView bk w =
           (Inr (Some 8),
            w\<lparr>visitor_count := (visitor_count w)(1 \<mapsto> Some 8),
              trace := trace w @
                [Get cacheKey, Select, SetEx cacheKey 60 ''7'', Update, Del cacheKey]\<rparr>)
         \<and> exec 3 bk (Start, w) =
           (Counted (JNum 7),
            w\<lparr>redis := (redis w)(cacheKey \<mapsto> (''7'', 60)),
              trace := trace w @ [Get cacheKey, Select, SetEx cacheKey 60 ''7'']\<rparr>)"
proof -
  have idem: "(redis w)(cacheKey := None) = redis w"
    using assms(1) by (rule fun_upd_idem)
  have read: "readTotal bk w =
      (Inr (JNum 7),
       w\<lparr>redis := (redis w)(cacheKey \<mapsto> (''7'', 60)),
         trace := trace w @ [Get cacheKey, Select, SetEx cacheKey 60 ''7'']\<rparr>)"
    using assms by (simp add: readTotal_def Let_def backend_defs all_ok_def toString_7)
  have read': "readTotal (bk\<lparr>del_ok := False\<rparr>) w = readTotal bk w"
    by (simp add: readTotal_def Let_def)
  show ?thesis
    using assms idem read
    by (simp add: read' exec_numeral recordView_def countAndInvalidate_def Let_def backend_defs
        all_ok_def INT_MAX_def toString_7 parseInt_7)
qed

text \<open>
  From the seeded state at 7: the call shows 8 and ends with the store at 8 and no
  cache entry; the cache holds \<^verbatim>\<open>"7"\<close> for 60 seconds after its first half, and still
  does at the end when the \<^verbatim>\<open>DEL\<close> is rejected.
\<close>

theorem recordView_miss_at_7_witness:
  "redis (seeded 7) cacheKey = None \<and> visitor_count (seeded 7) 1 = Some (Some 7) \<and> all_ok healthy
   \<and> fst (recordView healthy (seeded 7)) = Inr (Some 8)
   \<and> redis (snd (recordView healthy (seeded 7))) cacheKey = None
   \<and> visitor_count (snd (recordView healthy (seeded 7))) 1 = Some (Some 8)
   \<and> trace (snd (recordView healthy (seeded 7))) =
       [Get cacheKey, Select, SetEx cacheKey 60 ''7'', Update, Del cacheKey]
   \<and> redis (snd (readTotal healthy (seeded 7))) cacheKey = Some (''7'', 60)
   \<and> redis (snd (recordView (healthy\<lparr>del_ok := False\<rparr>) (seeded 7))) cacheKey = Some (''7'', 60)
   \<and> visitor_count (snd (recordView (healthy\<lparr>del_ok := False\<rparr>) (seeded 7))) 1 = Some (Some 8)"
proof -
  have h: "redis (seeded 7) cacheKey = None" "visitor_count (seeded 7) 1 = Some (Some 7)"
    "all_ok healthy"
    by (simp_all add: seeded_def all_ok_def healthy_def)
  note miss = recordView_miss_at_7 [OF h]
  from miss have read: "readTotal healthy (seeded 7) =
      (Inr (JNum 7),
       (seeded 7)\<lparr>redis := (redis (seeded 7))(cacheKey \<mapsto> (''7'', 60)),
         trace := trace (seeded 7) @ [Get cacheKey, Select, SetEx cacheKey 60 ''7'']\<rparr>)"
    by blast
  from miss have kept: "recordView (healthy\<lparr>del_ok := False\<rparr>) (seeded 7) =
      (Inl (Rejected (Del cacheKey)),
       (seeded 7)\<lparr>redis := (redis (seeded 7))(cacheKey \<mapsto> (''7'', 60)),
         visitor_count := (visitor_count (seeded 7))(1 \<mapsto> Some 8),
         trace := trace (seeded 7) @
           [Get cacheKey, Select, SetEx cacheKey 60 ''7'', Update, Del cacheKey]\<rparr>)"
    by blast
  from miss have run: "recordView healthy (seeded 7) =
      (Inr (Some 8),
       (seeded 7)\<lparr>visitor_count := (visitor_count (seeded 7))(1 \<mapsto> Some 8),
         trace := trace (seeded 7) @
           [Get cacheKey, Select, SetEx cacheKey 60 ''7'', Update, Del cacheKey]\<rparr>)"
    by blast
  show ?thesis
    using h by (simp add: read kept run) (simp add: seeded_def)
qed

text \<open>
  Claim C7. On a cache miss (the reply to \<^verbatim>\<open>GET\<close> is falsy) the call reads the count
  from the store, taking \<open>n = 0\<close> when the row \<^verbatim>\<open>id = 1\<close> is missing (and when its count
  is \<^verbatim>\<open>NULL\<close>) and the count of the row otherwise, and writes the decimal string of
  \<open>n\<close> under the key \<^verbatim>\<open>page_views_total\<close> with a time to live of 60 seconds. When the
  \<^verbatim>\<open>SETEX\<close> completes, the first half of the call ends with the cache holding exactly
  that entry and the second half starts from it: a call that then fails leaves the
  entry in the cache, and a call that renders shows \<open>n + 1\<close> and has deleted it. When
  the \<^verbatim>\<open>SETEX\<close> is rejected the call fails with that error. In every case the first
  three commands are \<^verbatim>\<open>GET\<close>, \<^verbatim>\<open>SELECT\<close> and that \<^verbatim>\<open>SETEX\<close>.
\<close>

theorem recordView_miss_caches_count:
  assumes "get_ok bk" and "select_ok bk" and "\<not> truthy (redis_get cacheKey w)"
    and "n = (case visitor_count w 1 of None \<Rightarrow> 0 | Some None \<Rightarrow> 0 | Some (Some c) \<Rightarrow> c)"
  shows "(setEx_ok bk \<longrightarrow>
            readTotal bk w =
              (Inr (JNum n),
               w\<lparr>redis := (redis w)(cacheKey \<mapsto> (toString n, 60)),
                 trace := trace w @ [Get cacheKey, Select, SetEx cacheKey 60 (toString n)]\<rparr>)
            \<and> recordView bk w =
              countAndInvalidate bk (JNum n)
                (w\<lparr>redis := (redis w)(cacheKey \<mapsto> (toString n, 60)),
                   trace := trace w @ [Get cacheKey, Select, SetEx cacheKey 60 (toString n)]\<rparr>)
            \<and> (case fst (recordView bk w) of
                  Inl e \<Rightarrow> redis (snd (recordView bk w)) = (redis w)(cacheKey \<mapsto> (toString n, 60))
                | Inr shown \<Rightarrow>
                    shown = Some (n + 1)
                    \<and> redis (snd (recordView bk w)) = (redis w)(cacheKey := None))
            \<and> exec 3 bk (Start, w) =
                (Counted (JNum n),
                 w\<lparr>redis := (redis w)(cacheKey \<mapsto> (toString n, 60)),
                   trace := trace w @ [Get cacheKey, Select, SetEx cacheKey 60 (toString n)]\<rparr>))
         \<and> (\<not> setEx_ok bk \<longrightarrow>
            recordView bk w =
              (Inl (Rejected (SetEx cacheKey 60 (toString n))),
               w\<lparr>trace := trace w @ [Get cacheKey, Select, SetEx cacheKey 60 (toString n)]\<rparr>))
         \<and> take 3 (drop (length (trace w)) (trace (snd (recordView bk w)))) =
              [Get cacheKey, Select, SetEx cacheKey 60 (toString n)]"
proof -
  let ?cmds = "[Get cacheKey, Select, SetEx cacheKey 60 (toString n)]"
  let ?w3 = "w\<lparr>redis := (redis w)(cacheKey \<mapsto> (toString n, 60)), trace := trace w @ ?cmds\<rparr>"
  have n: "count_or_zero (mysql_select w) = n"
    by (simp add: assms(4) mysql_select_def split: option.splits)
  have read: "readTotal bk w =
      (if setEx_ok bk then (Inr (JNum n), ?w3)
       else (Inl (Rejected (SetEx cacheKey 60 (toString n))), w\<lparr>trace := trace w @ ?cmds\<rparr>))"
    using assms(1,2,3) n by (simp add: readTotal_def Let_def backend_defs)
  have run: "setEx_ok bk \<Longrightarrow> recordView bk w = countAndInvalidate bk (JNum n) ?w3"
    by (simp add: recordView_def read)
  have after: "case fst (countAndInvalidate bk (JNum n) ?w3) of
        Inl e \<Rightarrow> redis (snd (countAndInvalidate bk (JNum n) ?w3)) = (redis w)(cacheKey \<mapsto> (toString n, 60))
      | Inr shown \<Rightarrow> shown = Some (n + 1)
          \<and> redis (snd (countAndInvalidate bk (JNum n) ?w3)) = (redis w)(cacheKey := None)"
    by (auto simp: countAndInvalidate_def Let_def backend_defs parseInt_toString
        split: option.splits)
  have steps: "setEx_ok bk \<Longrightarrow> exec 3 bk (Start, w) = (Counted (JNum n), ?w3)"
    using assms(1,2,3) n by (simp add: exec_numeral Let_def backend_defs)
  have cmds: "take 3 (drop (length (trace w)) (trace (snd (recordView bk w)))) = ?cmds"
  proof (cases "setEx_ok bk")
    case False
    with read show ?thesis
      by (simp add: recordView_def)
  next
    case True
    obtain cs where "trace (snd (countAndInvalidate bk (JNum n) ?w3)) = trace ?w3 @ cs"
      using countAndInvalidate_trace by blast
    with True run show ?thesis
      by simp
  qed
  show ?thesis
  proof (intro conjI impI)
    assume ok: "setEx_ok bk"
    from ok read show "readTotal bk w = (Inr (JNum n), ?w3)" by simp
    from ok run show "recordView bk w = countAndInvalidate bk (JNum n) ?w3" by simp
    show "case fst (recordView bk w) of
        Inl e \<Rightarrow> redis (snd (recordView bk w)) = (redis w)(cacheKey \<mapsto> (toString n, 60))
      | Inr shown \<Rightarrow> shown = Some (n + 1)
          \<and> redis (snd (recordView bk w)) = (redis w)(cacheKey := None)"
      unfolding run [OF ok] by (rule after)
    from ok steps show "exec 3 bk (Start, w) = (Counted (JNum n), ?w3)" by simp
  next
    assume "\<not> setEx_ok bk"
    with read show "recordView bk w =
        (Inl (Rejected (SetEx cacheKey 60 (toString n))), w\<lparr>trace := trace w @ ?cmds\<rparr>)"
      by (simp add: recordView_def)
  next
    show "take 3 (drop (length (trace w)) (trace (snd (recordView bk w)))) = ?cmds"
      by (rule cmds)
  qed
qed

text \<open>
  The row is missing, nothing is cached and the \<^verbatim>\<open>UPDATE\<close> is rejected: the call fails
  and leaves \<^verbatim>\<open>"0"\<close> in the cache with 60 seconds to live.
\<close>

theorem recordView_miss_caches_count_witness:
  "get_ok (healthy\<lparr>update_ok := False\<rparr>) \<and> select_ok (healthy\<lparr>update_ok := False\<rparr>)
   \<and> setEx_ok (healthy\<lparr>update_ok := False\<rparr>)
   \<and> \<not> truthy (redis_get cacheKey ((seeded 7)\<lparr>visitor_count := Map.empty\<rparr>))
   \<and> (0::int) = (case ((visitor_count ((seeded 7)\<lparr>visitor_count := Map.empty\<rparr>)) 1) of
                   None \<Rightarrow> 0 | Some None \<Rightarrow> 0 | Some (Some c) \<Rightarrow> c)
   \<and> toString 0 = ''0''
   \<and> fst (recordView (healthy\<lparr>update_ok := False\<rparr>) ((seeded 7)\<lparr>visitor_count := Map.empty\<rparr>)) =
       Inl (Rejected Update)
   \<and> redis (snd (recordView (healthy\<lparr>update_ok := False\<rparr>)
        ((seeded 7)\<lparr>visitor_count := Map.empty\<rparr>))) cacheKey = Some (''0'', 60)
   \<and> redis (snd (readTotal (healthy\<lparr>update_ok := False\<rparr>)
        ((seeded 7)\<lparr>visitor_count := Map.empty\<rparr>))) cacheKey = Some (''0'', 60)"
proof -
  let ?bk = "healthy\<lparr>update_ok := False\<rparr>"
  let ?w = "(seeded 7)\<lparr>visitor_count := Map.empty\<rparr>"
  have h: "get_ok ?bk" "select_ok ?bk" "\<not> truthy (redis_get cacheKey ?w)"
    "(0::int) = (case visitor_count ?w 1 of None \<Rightarrow> 0 | Some None \<Rightarrow> 0 | Some (Some c) \<Rightarrow> c)"
    by (simp_all add: healthy_def seeded_def redis_get_def)
  have ok: "setEx_ok ?bk"
    by (simp add: healthy_def)
  have zero: "toString 0 = ''0''"
    by code_simp
  have thrown: "fst (recordView ?bk ?w) = Inl (Rejected Update)"
    by (simp add: recordView_defs backend_defs healthy_def seeded_def)
  note miss = recordView_miss_caches_count [OF h]
  from miss ok have read: "readTotal ?bk ?w =
      (Inr (JNum 0),
       ?w\<lparr>redis := (redis ?w)(cacheKey \<mapsto> (toString 0, 60)),
         trace := trace ?w @ [Get cacheKey, Select, SetEx cacheKey 60 (toString 0)]\<rparr>)"
    by blast
  from miss ok have "case fst (recordView ?bk ?w) of
        Inl e \<Rightarrow> redis (snd (recordView ?bk ?w)) = (redis ?w)(cacheKey \<mapsto> (toString 0, 60))
      | Inr shown \<Rightarrow> shown = Some (0 + 1)
          \<and> redis (snd (recordView ?bk ?w)) = (redis ?w)(cacheKey := None)"
    by blast
  then have left: "redis (snd (recordView ?bk ?w)) = (redis ?w)(cacheKey \<mapsto> (toString 0, 60))"
    by (simp add: thrown)
  have "redis (snd (recordView ?bk ?w)) cacheKey = Some (''0'', 60)"
    "redis (snd (readTotal ?bk ?w)) cacheKey = Some (''0'', 60)"
    by (simp_all add: left read zero)
  with h ok zero thrown show ?thesis
    by blast
qed

text \<open>
  Claim C3, as the code has it. Let the cache hold the value \<open>V\<close> for
  \<^verbatim>\<open>page_views_total\<close> at the start of a call, \<open>V\<close> and \<open>V + 1\<close> being safe integers
  as every cached \<^verbatim>\<open>INT\<close> count and its successor are, and let the store hold \<open>c\<close>.
  When \<open>c\<close> is below the largest \<^verbatim>\<open>INT\<close> and the \<^verbatim>\<open>GET\<close>, \<^verbatim>\<open>UPDATE\<close> and \<^verbatim>\<open>DEL\<close> of the call
  complete, the call shows \<open>V + 1\<close> whatever \<open>c\<close> is, and the store then holds
  \<open>c + 1\<close>. The same holds of every call that renders the page. The store is not read:
  the commands sent are \<^verbatim>\<open>GET\<close>, \<^verbatim>\<open>UPDATE\<close> and \<^verbatim>\<open>DEL\<close>.
\<close>

theorem recordView_hit_shows_cached:
  assumes "redis w cacheKey = Some (toString V, ttl)"
    and "isSafeInteger V" and "isSafeInteger (V + 1)"
    and "visitor_count w 1 = Some (Some c)"
  shows "(get_ok bk \<and> update_ok bk \<and> del_ok bk \<and> c < INT_MAX \<longrightarrow>
            recordView bk w =
              (Inr (Some (V + 1)),
               w\<lparr>redis := (redis w)(cacheKey := None),
                 visitor_count := (visitor_count w)(1 \<mapsto> Some (c + 1)),
                 trace := trace w @ [Get cacheKey, Update, Del cacheKey]\<rparr>))
         \<and> (recordView bk w = (Inr shown, w') \<longrightarrow>
            shown = Some (V + 1) \<and> visitor_count w' 1 = Some (Some (c + 1))
            \<and> trace w' = trace w @ [Get cacheKey, Update, Del cacheKey])"
  using assms(1,4)
  by (auto simp: recordView_defs backend_defs toString_nonempty parseInt_toString
      split: if_splits option.splits)

text \<open>The cache says 41 while the store holds 100: the call shows 42 and the store holds 101.\<close>

theorem recordView_hit_shows_cached_witness:
  "redis (cached (toString 41) 30 100) cacheKey = Some (toString 41, 30)
   \<and> isSafeInteger 41 \<and> isSafeInteger (41 + 1)
   \<and> visitor_count (cached (toString 41) 30 100) 1 = Some (Some 100)
   \<and> get_ok healthy \<and> update_ok healthy \<and> del_ok healthy \<and> 100 < INT_MAX
   \<and> fst (recordView healthy (cached (toString 41) 30 100)) = Inr (Some 42)
   \<and> visitor_count (snd (recordView healthy (cached (toString 41) 30 100))) 1 = Some (Some 101)
   \<and> redis (snd (recordView healthy (cached (toString 41) 30 100))) cacheKey = None"
proof -
  let ?w = "cached (toString 41) 30 100"
  have h: "redis ?w cacheKey = Some (toString 41, 30)" "isSafeInteger 41" "isSafeInteger (41 + 1)"
    "visitor_count ?w 1 = Some (Some 100)"
    by (simp_all add: cached_def seeded_def isSafeInteger_def MAX_SAFE_INTEGER_def)
  have ok: "get_ok healthy \<and> update_ok healthy \<and> del_ok healthy \<and> (100::int) < INT_MAX"
    by (simp add: healthy_def INT_MAX_def)
  from recordView_hit_shows_cached [OF h, of healthy] ok
  have run: "recordView healthy ?w =
      (Inr (Some (41 + 1)),
       ?w\<lparr>redis := (redis ?w)(cacheKey := None),
         visitor_count := (visitor_count ?w)(1 \<mapsto> Some (100 + 1)),
         trace := trace ?w @ [Get cacheKey, Update, Del cacheKey]\<rparr>)"
    by blast
  have "fst (recordView healthy ?w) = Inr (Some 42)"
    "visitor_count (snd (recordView healthy ?w)) 1 = Some (Some 101)"
    "redis (snd (recordView healthy ?w)) cacheKey = None"
    by (simp_all add: run)
  with h ok show ?thesis by simp
qed

text \<open>
  The claim as it is stated, for every count of the store, fails at the largest
  \<^verbatim>\<open>INT\<close>. The cache says 41, the store holds 2147483647 and every command the
  services accept completes: the \<^verbatim>\<open>UPDATE\<close> is out of range and rejected, the response
  is \<^verbatim>\<open>Serverfehler\<close> and not 42, and the count is not incremented.
\<close>

theorem recordView_hit_at_INT_MAX_counterexample:
  "redis (cached (toString 41) 30 INT_MAX) cacheKey = Some (toString 41, 30)
   \<and> visitor_count (cached (toString 41) 30 INT_MAX) 1 = Some (Some INT_MAX)
   \<and> INT_MAX = 2147483647
   \<and> fst (recordView healthy (cached (toString 41) 30 INT_MAX)) = Inl (Rejected Update)
   \<and> fst (get_root healthy None (cached (toString 41) 30 INT_MAX)) = Serverfehler
   \<and> visitor_count (snd (recordView healthy (cached (toString 41) 30 INT_MAX))) 1 =
       Some (Some INT_MAX)"
  by (simp add: get_root_def recordView_defs backend_defs cached_def seeded_def healthy_def
      toString_nonempty)
     (simp add: INT_MAX_def)

text \<open>
  Claim C4. After every call that renders the page, the cache entry for
  \<^verbatim>\<open>page_views_total\<close> is absent: the last command the handler sent before responding
  is the \<^verbatim>\<open>DEL\<close> of that key.
\<close>

theorem cache_absent_after_success:
  assumes "get_root bk session_views w = (Render v, views, w')"
  shows "redis w' cacheKey = None \<and> last (trace w') = Del cacheKey"
  using assms
  by (auto simp: get_root_def recordView_defs backend_defs
      split: if_splits option.splits prod.splits sum.splits)

theorem cache_absent_after_success_witness:
  "fst (get_root healthy None (cached (toString 41) 30 100)) =
     Render \<lparr>sessionViews = 1, totalViews = Some 42\<rparr>
   \<and> redis (snd (snd (get_root healthy None (cached (toString 41) 30 100)))) cacheKey = None
   \<and> last (trace (snd (snd (get_root healthy None (cached (toString 41) 30 100))))) = Del cacheKey"
proof -
  let ?w = "cached (toString 41) 30 100"
  let ?g = "get_root healthy None ?w"
  have shown: "fst (recordView healthy ?w) = Inr (Some 42)"
    by code_simp
  have page: "fst ?g = Render \<lparr>sessionViews = 1, totalViews = Some 42\<rparr>"
    using shown by (cases "recordView healthy ?w") (simp add: get_root_def bump_def)
  then have "?g = (Render \<lparr>sessionViews = 1, totalViews = Some 42\<rparr>, fst (snd ?g), snd (snd ?g))"
    by (simp add: prod_eq_iff)
  from cache_absent_after_success [OF this]
  have "redis (snd (snd ?g)) cacheKey = None \<and> last (trace (snd (snd ?g))) = Del cacheKey" .
  with page show ?thesis by simp
qed

text \<open>
  Claim C8. The stored count never decreases: whatever the state and whichever
  commands of the call complete or reject, a row holding \<open>c\<close> before the call holds
  \<open>c\<close> or \<open>c + 1\<close> after it. The row is never deleted.
\<close>

theorem visitor_count_never_decreases:
  assumes "visitor_count w 1 = Some (Some c)"
  shows "\<exists>c'. visitor_count (snd (recordView bk w)) 1 = Some (Some c') \<and> c \<le> c' \<and> c' \<le> c + 1"
  using assms
  by (auto simp: recordView_defs backend_defs split: if_splits option.splits)

theorem visitor_count_never_decreases_witness:
  "visitor_count (seeded 7) 1 = Some (Some 7)
   \<and> (\<exists>c'. visitor_count (snd (recordView (healthy\<lparr>update_ok := False\<rparr>) (seeded 7))) 1 = Some (Some c')
         \<and> 7 \<le> c' \<and> c' \<le> 7 + 1)"
proof -
  have h: "visitor_count (seeded 7) 1 = Some (Some 7)"
    by (simp add: seeded_def)
  show ?thesis
    using h visitor_count_never_decreases [OF h, of "healthy\<lparr>update_ok := False\<rparr>"] by simp
qed

text \<open>
  Claim C5. A store failure propagates. When the store is unreachable, so that both
  of its queries reject, the caller receives status 500 and neither the cache nor the
  store has changed. When the error a call throws is a rejected store query, the
  caller receives status 500, the store is unchanged, and the cache is as the commands
  before the failure left it: unchanged when \<^verbatim>\<open>SELECT\<close> was rejected, or when \<^verbatim>\<open>UPDATE\<close>
  was rejected after a cache hit, and holding the value \<^verbatim>\<open>SETEX\<close> wrote when \<^verbatim>\<open>UPDATE\<close>
  was rejected after a miss. In no case is \<^verbatim>\<open>DEL\<close> sent.
\<close>

theorem store_unavailable_propagates:
  "(\<not> select_ok bk \<and> \<not> update_ok bk \<longrightarrow>
      status (fst (get_root bk session_views w)) = 500
      \<and> redis (snd (recordView bk w)) = redis w
      \<and> visitor_count (snd (recordView bk w)) = visitor_count w)
   \<and> (recordView bk w = (Inl e, w') \<and> StoreUnavailable e \<longrightarrow>
      status (fst (get_root bk session_views w)) = 500
      \<and> visitor_count w' = visitor_count w
      \<and> (e = Rejected Select \<and> trace w' = trace w @ [Get cacheKey, Select] \<and> redis w' = redis w
         \<or> e = Rejected Update \<and> trace w' = trace w @ [Get cacheKey, Update] \<and> redis w' = redis w
         \<or> e = Rejected Update
           \<and> trace w' = trace w @
               [Get cacheKey, Select,
                SetEx cacheKey 60 (toString (count_or_zero (mysql_select w))), Update]
           \<and> redis w' = (redis w)(cacheKey \<mapsto> (toString (count_or_zero (mysql_select w)), 60))))"
proof (intro conjI impI)
  assume down: "\<not> select_ok bk \<and> \<not> update_ok bk"
  then obtain e where "fst (recordView bk w) = Inl e"
    using store_down(1) [of bk w] by blast
  then have "recordView bk w = (Inl e, snd (recordView bk w))"
    by (simp add: prod_eq_iff)
  then show "status (fst (get_root bk session_views w)) = 500"
    by (rule recordView_Inl_status)
  from down show "redis (snd (recordView bk w)) = redis w"
    by (simp add: store_down(2))
  from down show "visitor_count (snd (recordView bk w)) = visitor_count w"
    by (simp add: store_down(3))
next
  assume thrown: "recordView bk w = (Inl e, w') \<and> StoreUnavailable e"
  then show "status (fst (get_root bk session_views w)) = 500"
    by (blast intro: recordView_Inl_status)
  obtain cmd where e: "e = Rejected cmd"
    by (cases e)
  with thrown consider "cmd = Select" | "cmd = Update"
    by (cases cmd) simp_all
  then have "visitor_count w' = visitor_count w
      \<and> (e = Rejected Select \<and> trace w' = trace w @ [Get cacheKey, Select] \<and> redis w' = redis w
         \<or> e = Rejected Update \<and> trace w' = trace w @ [Get cacheKey, Update] \<and> redis w' = redis w
         \<or> e = Rejected Update
           \<and> trace w' = trace w @
               [Get cacheKey, Select,
                SetEx cacheKey 60 (toString (count_or_zero (mysql_select w))), Update]
           \<and> redis w' = (redis w)(cacheKey \<mapsto> (toString (count_or_zero (mysql_select w)), 60)))"
  proof cases
    case 1
    with thrown e have "w' = w\<lparr>trace := trace w @ [Get cacheKey, Select]\<rparr>"
      by (simp add: Select_rejected)
    with 1 e show ?thesis by simp
  next
    case 2
    with thrown e have "recordView bk w = (Inl (Rejected Update), w')"
      by simp
    from Update_rejected [OF this] 2 e show ?thesis
      by (elim disjE) simp_all
  qed
  then show "visitor_count w' = visitor_count w"
    and "e = Rejected Select \<and> trace w' = trace w @ [Get cacheKey, Select] \<and> redis w' = redis w
         \<or> e = Rejected Update \<and> trace w' = trace w @ [Get cacheKey, Update] \<and> redis w' = redis w
         \<or> e = Rejected Update
           \<and> trace w' = trace w @
               [Get cacheKey, Select,
                SetEx cacheKey 60 (toString (count_or_zero (mysql_select w))), Update]
           \<and> redis w' = (redis w)(cacheKey \<mapsto> (toString (count_or_zero (mysql_select w)), 60))"
    by simp_all
qed

text \<open>
  The store at 7 rejects the \<^verbatim>\<open>UPDATE\<close> after a miss: status 500, the count still 7,
  the cache left holding \<^verbatim>\<open>"7"\<close>, no \<^verbatim>\<open>DEL\<close>.
\<close>

theorem store_unavailable_propagates_witness:
  "fst (recordView (healthy\<lparr>update_ok := False\<rparr>) (seeded 7)) = Inl (Rejected Update)
   \<and> StoreUnavailable (Rejected Update)
   \<and> status (fst (get_root (healthy\<lparr>update_ok := False\<rparr>) None (seeded 7))) = 500
   \<and> visitor_count (snd (recordView (healthy\<lparr>update_ok := False\<rparr>) (seeded 7))) 1 = Some (Some 7)
   \<and> redis (snd (recordView (healthy\<lparr>update_ok := False\<rparr>) (seeded 7))) cacheKey = Some (''7'', 60)
   \<and> trace (snd (recordView (healthy\<lparr>update_ok := False\<rparr>) (seeded 7))) =
       [Get cacheKey, Select, SetEx cacheKey 60 ''7'', Update]"
proof -
  let ?bk = "healthy\<lparr>update_ok := False\<rparr>"
  let ?w' = "snd (recordView ?bk (seeded 7))"
  have thrown: "fst (recordView ?bk (seeded 7)) = Inl (Rejected Update)"
    by code_simp
  then have run: "recordView ?bk (seeded 7) = (Inl (Rejected Update), ?w') \<and> StoreUnavailable (Rejected Update)"
    by (simp add: prod_eq_iff)
  have after: "redis ?w' cacheKey = Some (''7'', 60)"
    "trace ?w' = [Get cacheKey, Select, SetEx cacheKey 60 ''7'', Update]"
    by code_simp+
  from store_unavailable_propagates [of ?bk None "seeded 7" "Rejected Update" ?w'] run
  have "status (fst (get_root ?bk None (seeded 7))) = 500
        \<and> visitor_count ?w' = visitor_count (seeded 7)"
    by blast
  with thrown after show ?thesis
    by (simp add: seeded_def)
qed

text \<open>
  Claim C6, as the code has it. The handler has no path that serves the request from
  the store alone, and a cache failure is fatal to the request. When the cache is
  unreachable from the start of the request, no page is rendered, no command reaches
  a service and the count stays. Whatever happens to the connection, a page is
  rendered only by a call whose \<^verbatim>\<open>GET\<close> and \<^verbatim>\<open>DEL\<close> have completed. And when Redis
  rejects the \<^verbatim>\<open>GET\<close> while the connection is up, the \<^verbatim>\<open>catch\<close> block answers with
  status 500 and no query is sent to the store: the only command in the trace is the
  \<^verbatim>\<open>GET\<close>.
\<close>

theorem cache_unavailable_is_fatal:
  "serve (LostAfter 0) bk session_views w = (ProcessExit, w)
   \<and> (fst (serve redis_link bk session_views w) = Responded (Render v) \<longrightarrow>
        get_ok bk \<and> del_ok bk \<and> fst (recordView bk w) = Inr (totalViews v))
   \<and> (\<not> get_ok bk \<longrightarrow>
        fst (recordView bk w) = Inl (Rejected (Get cacheKey))
        \<and> CacheUnavailable (Rejected (Get cacheKey))
        \<and> serve Up bk session_views w =
            (Responded Serverfehler, w\<lparr>trace := trace w @ [Get cacheKey]\<rparr>)
        \<and> status Serverfehler = 500)"
proof (intro conjI impI)
  show "serve (LostAfter 0) bk session_views w = (ProcessExit, w)"
    by (simp add: serve_def)
  show "get_ok bk" "del_ok bk" "fst (recordView bk w) = Inr (totalViews v)"
    if "fst (serve redis_link bk session_views w) = Responded (Render v)"
  proof -
    from that have "fst (get_root bk session_views w) = Render v"
      by (auto simp: serve_def split: link.splits prod.splits task.splits)
    then show "get_ok bk" "del_ok bk" "fst (recordView bk w) = Inr (totalViews v)"
      using render_needs_cache by blast+
  qed
next
  assume down: "\<not> get_ok bk"
  then show "fst (recordView bk w) = Inl (Rejected (Get cacheKey))"
    by (simp add: recordView_defs backend_defs)
  show "CacheUnavailable (Rejected (Get cacheKey))"
    by (simp add: CacheUnavailable_def)
  from down show "serve Up bk session_views w =
      (Responded Serverfehler, w\<lparr>trace := trace w @ [Get cacheKey]\<rparr>)"
    by (simp add: serve_def get_root_def recordView_defs backend_defs)
  show "status Serverfehler = 500"
    by (simp add: status_def)
qed

text \<open>
  Redis rejects the \<^verbatim>\<open>GET\<close> with the connection up: status 500 and only the \<^verbatim>\<open>GET\<close> in
  the trace. With every command completing, and the connection lost only after the
  five commands, the page is rendered, and the \<^verbatim>\<open>GET\<close> and the \<^verbatim>\<open>DEL\<close> have completed.
\<close>

theorem cache_unavailable_is_fatal_witness:
  "\<not> get_ok (healthy\<lparr>get_ok := False\<rparr>)
   \<and> serve Up (healthy\<lparr>get_ok := False\<rparr>) (Some 3) (seeded 7) =
       (Responded Serverfehler, (seeded 7)\<lparr>trace := trace (seeded 7) @ [Get cacheKey]\<rparr>)
   \<and> fst (serve (LostAfter 5) healthy None (seeded 7)) =
       Responded (Render \<lparr>sessionViews = 1, totalViews = Some 8\<rparr>)
   \<and> get_ok healthy \<and> del_ok healthy
   \<and> fst (recordView healthy (seeded 7)) = Inr (Some 8)"
proof -
  have h: "\<not> get_ok (healthy\<lparr>get_ok := False\<rparr>)"
    by simp
  from cache_unavailable_is_fatal [of "healthy\<lparr>get_ok := False\<rparr>" "Some 3" "seeded 7"] h
  have rejected: "serve Up (healthy\<lparr>get_ok := False\<rparr>) (Some 3) (seeded 7) =
      (Responded Serverfehler, (seeded 7)\<lparr>trace := trace (seeded 7) @ [Get cacheKey]\<rparr>)"
    by blast
  have page: "fst (serve (LostAfter 5) healthy None (seeded 7)) =
      Responded (Render \<lparr>sessionViews = 1, totalViews = Some 8\<rparr>)"
    by (simp add: serve_def exec_recordView get_root_def bump_def recordView_defs backend_defs
        healthy_def seeded_def INT_MAX_def toString_7 parseInt_7 split: prod.splits)
  from cache_unavailable_is_fatal
    [of healthy None "seeded 7" "LostAfter 5" "\<lparr>sessionViews = 1, totalViews = Some 8\<rparr>"] page
  have "get_ok healthy \<and> del_ok healthy
      \<and> fst (recordView healthy (seeded 7)) = Inr (totalViews \<lparr>sessionViews = 1, totalViews = Some 8\<rparr>)"
    by blast
  with h rejected page show ?thesis
    by simp
qed

text \<open>
  The claim as it is stated fails: with the cache unreachable and MySQL up, a request
  on the seeded state at 7 gets no page and the store is not asked; and when Redis
  rejects the \<^verbatim>\<open>GET\<close> with the connection up, the response is \<^verbatim>\<open>Serverfehler\<close> and
  the store is not asked either.
\<close>

theorem cache_down_no_fallback_counterexample:
  "fst (serve (LostAfter 0) healthy None (seeded 7)) = ProcessExit
   \<and> visitor_count (snd (serve (LostAfter 0) healthy None (seeded 7))) 1 = Some (Some 7)
   \<and> trace (snd (serve (LostAfter 0) healthy None (seeded 7))) = []
   \<and> fst (serve Up (healthy\<lparr>get_ok := False\<rparr>) None (seeded 7)) = Responded Serverfehler
   \<and> trace (snd (serve Up (healthy\<lparr>get_ok := False\<rparr>) None (seeded 7))) = [Get cacheKey]"
  by (simp add: serve_def get_root_def recordView_defs backend_defs seeded_def)

text \<open>
  Claim C10. Let the store hold \<open>c\<close>. When the commands up to the \<^verbatim>\<open>UPDATE\<close> complete,
  \<open>c\<close> is below the largest \<^verbatim>\<open>INT\<close> and the \<^verbatim>\<open>DEL\<close> is rejected, the error the call
  throws is that rejected \<^verbatim>\<open>DEL\<close>. Whenever a call throws it, the caller receives
  status 500 and the store nevertheless holds \<open>c + 1\<close>: the increment is not rolled
  back.
\<close>

theorem del_rejected_keeps_increment:
  assumes "visitor_count w 1 = Some (Some c)"
  shows "(get_ok bk \<and> select_ok bk \<and> setEx_ok bk \<and> update_ok bk \<and> c < INT_MAX \<and> \<not> del_ok bk \<longrightarrow>
            fst (recordView bk w) = Inl (Rejected (Del cacheKey)))
         \<and> (recordView bk w = (Inl (Rejected (Del cacheKey)), w') \<longrightarrow>
            status (fst (get_root bk session_views w)) = 500
            \<and> visitor_count w' 1 = Some (Some (c + 1)))"
  using assms
  by (auto simp: get_root_def status_def recordView_defs backend_defs
      split: option.splits if_splits)

text \<open>From the seeded state at 7, with only the \<^verbatim>\<open>DEL\<close> rejected: status 500 and the store at 8.\<close>

theorem del_rejected_keeps_increment_witness:
  "visitor_count (seeded 7) 1 = Some (Some 7)
   \<and> fst (recordView (healthy\<lparr>del_ok := False\<rparr>) (seeded 7)) = Inl (Rejected (Del cacheKey))
   \<and> status (fst (get_root (healthy\<lparr>del_ok := False\<rparr>) None (seeded 7))) = 500
   \<and> visitor_count (snd (recordView (healthy\<lparr>del_ok := False\<rparr>) (seeded 7))) 1 = Some (Some 8)"
proof -
  let ?bk = "healthy\<lparr>del_ok := False\<rparr>"
  have h: "visitor_count (seeded 7) 1 = Some (Some 7)"
    by (simp add: seeded_def)
  have env: "get_ok ?bk \<and> select_ok ?bk \<and> setEx_ok ?bk \<and> update_ok ?bk \<and> (7::int) < INT_MAX
      \<and> \<not> del_ok ?bk"
    by (simp add: healthy_def INT_MAX_def)
  note del = del_rejected_keeps_increment [OF h, of ?bk "snd (recordView ?bk (seeded 7))" None]
  from del env have thrown: "fst (recordView ?bk (seeded 7)) = Inl (Rejected (Del cacheKey))"
    by simp
  then have run: "recordView ?bk (seeded 7) = (Inl (Rejected (Del cacheKey)), snd (recordView ?bk (seeded 7)))"
    by (simp add: prod_eq_iff)
  from del run
  have "status (fst (get_root ?bk None (seeded 7))) = 500
        \<and> visitor_count (snd (recordView ?bk (seeded 7))) 1 = Some (Some (7 + 1))"
    by blast
  with thrown h show ?thesis by simp
qed

subsection \<open>Requests one after the other\<close>

lemma in_step_elapse: "in_step w c \<Longrightarrow> in_step (elapse d w) c"
  by (auto simp: in_step_def elapse_def split: option.splits)

lemma recordView_in_step:
  assumes "in_step w c" and "recordView bk w = (Inr shown, w')"
  shows "shown = Some (c + 1)" and "in_step w' (c + 1)" and "redis w' cacheKey = None"
  using assms
  by (auto simp: in_step_def recordView_defs backend_defs toString_nonempty parseInt_toString
      split: if_splits option.splits)

lemma map_upt_from_1:
  "map f [Suc 0..<Suc (Suc n)] = f (Suc 0) # map (\<lambda>i. f (Suc i)) [Suc 0..<Suc n]"
proof -
  have "[Suc 0..<Suc (Suc n)] = Suc 0 # map Suc [Suc 0..<Suc n]"
    by (simp add: map_Suc_upt upt_conv_Cons del: upt_Suc)
  then show ?thesis
    by (simp add: comp_def del: upt_Suc)
qed

lemma recordViews_in_step:
  assumes "in_step w c"
    and "\<forall>r\<in>set (fst (recordViews calls w)). \<exists>shown. r = Inr shown"
  shows "fst (recordViews calls w) = map (\<lambda>i. Inr (Some (c + int i))) [1..<Suc (length calls)]"
  using assms
proof (induction calls arbitrary: w c)
  case Nil
  then show ?case by simp
next
  case (Cons call calls)
  obtain d bk where call: "call = (d, bk)"
    by (cases call)
  obtain r w' where first: "recordView bk (elapse d w) = (r, w')"
    by (cases "recordView bk (elapse d w)")
  have unfold: "fst (recordViews (call # calls) w) = r # fst (recordViews calls w')"
    by (simp add: call first split: prod.splits)
  with Cons.prems(2) obtain shown where r: "r = Inr shown"
    by auto
  have start: "in_step (elapse d w) c"
    using Cons.prems(1) by (rule in_step_elapse)
  from recordView_in_step [OF start] first r
  have shown: "shown = Some (c + 1)" and next_state: "in_step w' (c + 1)"
    by simp_all
  have "\<forall>r\<in>set (fst (recordViews calls w')). \<exists>shown. r = Inr shown"
    using Cons.prems(2) unfold by simp
  with next_state have "fst (recordViews calls w') =
      map (\<lambda>i. Inr (Some (c + 1 + int i))) [1..<Suc (length calls)]"
    by (rule Cons.IH)
  with unfold r shown show ?case
    by (simp add: map_upt_from_1 add.assoc del: upt_Suc)
qed

lemma recordView_succeeds:
  assumes "in_step w c" and "all_ok bk" and "c < INT_MAX"
  shows "\<exists>shown. fst (recordView bk w) = Inr shown"
  using assms
  by (auto simp: all_ok_def in_step_def recordView_defs backend_defs toString_nonempty
      split: if_splits option.splits)

lemma recordViews_succeed:
  assumes "in_step w c" and "\<forall>call\<in>set calls. all_ok (snd call)"
    and "c + int (length calls) \<le> INT_MAX"
  shows "\<forall>r\<in>set (fst (recordViews calls w)). \<exists>shown. r = Inr shown"
  using assms
proof (induction calls arbitrary: w c)
  case Nil
  then show ?case by simp
next
  case (Cons call calls)
  obtain d bk where call: "call = (d, bk)"
    by (cases call)
  obtain r w' where first: "recordView bk (elapse d w) = (r, w')"
    by (cases "recordView bk (elapse d w)")
  have unfold: "fst (recordViews (call # calls) w) = r # fst (recordViews calls w')"
    by (simp add: call first split: prod.splits)
  have start: "in_step (elapse d w) c"
    using Cons.prems(1) by (rule in_step_elapse)
  have "all_ok bk" "c < INT_MAX"
    using Cons.prems(2,3) call by simp_all
  with start obtain shown where r: "r = Inr shown"
    using recordView_succeeds [of "elapse d w" c bk] first by auto
  with recordView_in_step(2) [OF start] first have "in_step w' (c + 1)"
    by simp
  moreover have "\<forall>call\<in>set calls. all_ok (snd call)" "c + 1 + int (length calls) \<le> INT_MAX"
    using Cons.prems(2,3) by simp_all
  ultimately have "\<forall>r\<in>set (fst (recordViews calls w')). \<exists>shown. r = Inr shown"
    by (rule Cons.IH)
  with unfold r show ?case by simp
qed

text \<open>
  Claim C1, as the code has it. Let the store hold \<open>c\<close> and let the cache entry for
  \<^verbatim>\<open>page_views_total\<close> be absent, or be the decimal string of \<open>c\<close>, when the first call
  starts. Then \<open>N\<close> calls one after the other, any time apart, show exactly \<open>c + 1\<close>,
  \<open>c + 2\<close>, ..., \<open>c + N\<close>: when every command of every call completes and \<open>c + N\<close> is no
  more than the largest \<^verbatim>\<open>INT\<close>, and in general whenever all \<open>N\<close> calls render the page.
\<close>

theorem sequential_views_count_up:
  assumes "visitor_count w 1 = Some (Some c)"
    and "redis w cacheKey = None \<or> (\<exists>ttl. redis w cacheKey = Some (toString c, ttl))"
  shows "((\<forall>call\<in>set calls. all_ok (snd call)) \<and> c + int (length calls) \<le> INT_MAX \<longrightarrow>
            fst (recordViews calls w) =
              map (\<lambda>i. Inr (Some (c + int i))) [1..<Suc (length calls)])
         \<and> ((\<forall>r\<in>set (fst (recordViews calls w)). \<exists>shown. r = Inr shown) \<longrightarrow>
            fst (recordViews calls w) =
              map (\<lambda>i. Inr (Some (c + int i))) [1..<Suc (length calls)])"
proof -
  from assms have start: "in_step w c"
    by (auto simp: in_step_def)
  show ?thesis
  proof (intro conjI impI)
    assume "\<forall>r\<in>set (fst (recordViews calls w)). \<exists>shown. r = Inr shown"
    with start show "fst (recordViews calls w) =
        map (\<lambda>i. Inr (Some (c + int i))) [1..<Suc (length calls)]"
      by (rule recordViews_in_step)
  next
    assume env: "(\<forall>call\<in>set calls. all_ok (snd call)) \<and> c + int (length calls) \<le> INT_MAX"
    have "\<forall>r\<in>set (fst (recordViews calls w)). \<exists>shown. r = Inr shown"
      using start env [THEN conjunct1] env [THEN conjunct2] by (rule recordViews_succeed)
    with start show "fst (recordViews calls w) =
        map (\<lambda>i. Inr (Some (c + int i))) [1..<Suc (length calls)]"
      by (rule recordViews_in_step)
  qed
qed

text \<open>Three calls from the seeded state at 5, at once, 5 seconds and 100 seconds apart: 6, 7, 8.\<close>

theorem sequential_views_count_up_witness:
  "visitor_count (seeded 5) 1 = Some (Some 5) \<and> redis (seeded 5) cacheKey = None
   \<and> fst (recordViews [(0, healthy), (5, healthy), (100, healthy)] (seeded 5)) =
       [Inr (Some 6), Inr (Some 7), Inr (Some 8)]"
proof -
  let ?calls = "[(0::nat, healthy), (5, healthy), (100, healthy)]"
  have h: "visitor_count (seeded 5) 1 = Some (Some 5)"
    "redis (seeded 5) cacheKey = None \<or> (\<exists>ttl. redis (seeded 5) cacheKey = Some (toString 5, ttl))"
    by (simp_all add: seeded_def)
  have env: "(\<forall>call\<in>set ?calls. all_ok (snd call)) \<and> 5 + int (length ?calls) \<le> INT_MAX"
    by (simp add: all_ok_def healthy_def INT_MAX_def)
  from sequential_views_count_up [OF h, of ?calls] env
  have "fst (recordViews ?calls (seeded 5)) =
      map (\<lambda>i. Inr (Some (5 + int i))) [1..<Suc (length ?calls)]"
    by blast
  then show ?thesis
    by (simp add: seeded_def upt_rec)
qed

text \<open>
  The claim as it is stated, for every state the first call may find, fails. In the
  state \<open>stale\<close> the store holds 8 and the cache still holds \<^verbatim>\<open>"7"\<close>; one call, with
  every command completing, shows 8 and not 9.
\<close>

theorem sequential_views_stale_cache_counterexample:
  "visitor_count stale 1 = Some (Some 8)
   \<and> fst (recordViews [(0, healthy)] stale) = [Inr (Some 8)]
   \<and> fst (recordViews [(0, healthy)] stale) \<noteq> [Inr (Some (8 + 1))]"
  by code_simp

subsection \<open>Requests in flight together\<close>

text \<open>
  Whatever a step of a request does, the count moves by 1 exactly when the step is the
  \<^verbatim>\<open>UPDATE\<close> and it completes.
\<close>

lemma step_incremented:
  assumes "visitor_count w 1 = Some (Some c)" and "step bk t w = (t', w')"
  shows "visitor_count w' 1 = Some (Some (c + incremented t' - incremented t))"
proof (cases t)
  case (Finished r)
  with assms show ?thesis by simp
qed (use assms in \<open>auto simp: backend_defs Let_def split: if_splits option.splits\<close>)

lemma sum_list_map_update:
  fixes f :: "'a \<Rightarrow> int"
  shows "i < length xs \<Longrightarrow>
    sum_list (map f (xs[i := x])) = sum_list (map f xs) - f (xs ! i) + f x"
proof (induction xs arbitrary: i)
  case Nil
  then show ?case by simp
next
  case (Cons y ys)
  then show ?case by (cases i) simp_all
qed

lemma fire_tally:
  assumes "visitor_count w 1 = Some (Some (c + tally pool))" and "fire e (pool, w) = (pool', w')"
  shows "visitor_count w' 1 = Some (Some (c + tally pool'))" and "length pool' = length pool"
proof -
  show "length pool' = length pool"
    using assms(2) by (cases e) (auto split: if_splits prod.splits)
  show "visitor_count w' 1 = Some (Some (c + tally pool'))"
  proof (cases e)
    case (Wait d)
    with assms show ?thesis by (auto simp: elapse_def)
  next
    case (Run i)
    show ?thesis
    proof (cases "i < length pool")
      case False
      with Run assms show ?thesis by simp
    next
      case True
      obtain bk t where p: "pool ! i = (bk, t)"
        by (cases "pool ! i")
      obtain t' w'' where s: "step bk t w = (t', w'')"
        by (cases "step bk t w")
      from Run True p s assms(2) have eq: "pool' = pool[i := (bk, t')]" "w' = w''"
        by simp_all
      have "visitor_count w'' 1 = Some (Some (c + tally pool + incremented t' - incremented t))"
        using step_incremented [OF assms(1) s] .
      moreover have "tally pool' = tally pool - incremented t + incremented t'"
        using True p by (simp add: tally_def eq sum_list_map_update)
      ultimately show ?thesis
        using eq by simp
    qed
  qed
qed

lemma concurrent_snoc:
  "concurrent bks (schedule @ [e]) w = fire e (concurrent bks schedule w)"
  by (simp add: concurrent_def)

text \<open>
  No update is lost: at every moment of every schedule the count is the count at the
  start plus the number of requests whose \<^verbatim>\<open>UPDATE\<close> has completed.
\<close>

lemma concurrent_tally:
  assumes "visitor_count w 1 = Some (Some c)" and "concurrent bks schedule w = (pool, w')"
  shows "visitor_count w' 1 = Some (Some (c + tally pool)) \<and> length pool = length bks"
  using assms(2)
proof (induction schedule arbitrary: pool w' rule: rev_induct)
  case Nil
  then have "pool = map (\<lambda>bk. (bk, Start)) bks" "w' = w"
    by (simp_all add: concurrent_def)
  moreover have "tally (map (\<lambda>bk. (bk, Start)) bks) = 0"
    by (induction bks) (simp_all add: tally_def)
  ultimately show ?case
    using assms(1) by simp
next
  case (snoc e schedule)
  obtain pool0 w0 where before: "concurrent bks schedule w = (pool0, w0)"
    by (cases "concurrent bks schedule w")
  then have inv: "visitor_count w0 1 = Some (Some (c + tally pool0))" "length pool0 = length bks"
    using snoc.IH by simp_all
  from snoc.prems before have "fire e (pool0, w0) = (pool, w')"
    by (simp add: concurrent_snoc)
  from fire_tally [OF inv(1) this] inv(2) show ?case
    by simp
qed

lemma tally_completed:
  "\<forall>p\<in>set pool. completed (snd p) \<Longrightarrow> tally pool = int (length pool)"
proof (induction pool)
  case Nil
  then show ?case by (simp add: tally_def)
next
  case (Cons p pool)
  then have "completed (snd p)" by simp
  then have "incremented (snd p) = 1"
    by (cases "snd p" rule: completed.cases) simp_all
  with Cons show ?case by (simp add: tally_def)
qed

text \<open>
  With every command completing and no more requests than the largest \<^verbatim>\<open>INT\<close>, no
  request fails, and each turn takes a request one command further: after five turns
  it has rendered its page.
\<close>

lemma step_progress:
  assumes "all_ok bk" and "\<not> failed t" and "visitor_count w 1 = Some (Some c)"
    and "incremented t = 0 \<longrightarrow> c < INT_MAX" and "step bk t w = (t', w')"
  shows "\<not> failed t' \<and> min 5 (Suc (stage t)) \<le> stage t'"
proof (cases t)
  case (Finished r)
  with assms show ?thesis by (cases r) auto
qed (use assms in \<open>auto simp: all_ok_def backend_defs Let_def split: if_splits option.splits\<close>)

lemma incremented_range: "incremented t = 0 \<or> incremented t = 1"
  by (cases t rule: incremented.cases) simp_all

lemma tally_Cons: "tally (p # pool) = incremented (snd p) + tally pool"
  by (simp add: tally_def)

lemma tally_le: "tally pool \<le> int (length pool)"
proof (induction pool)
  case Nil
  then show ?case by (simp add: tally_def)
next
  case (Cons p pool)
  with incremented_range [of "snd p"] show ?case
    by (auto simp: tally_Cons)
qed

lemma tally_less:
  "i < length pool \<Longrightarrow> incremented (snd (pool ! i)) = 0 \<Longrightarrow> tally pool < int (length pool)"
proof (induction pool arbitrary: i)
  case Nil
  then show ?case by simp
next
  case (Cons p pool)
  show ?case
  proof (cases i)
    case 0
    with Cons.prems tally_le [of pool] show ?thesis
      by (simp add: tally_Cons)
  next
    case (Suc j)
    with Cons have "tally pool < int (length pool)"
      by simp
    with incremented_range [of "snd p"] show ?thesis
      by (auto simp: tally_Cons)
  qed
qed

lemma concurrent_progress:
  assumes "visitor_count w 1 = Some (Some 0)"
    and "\<forall>bk\<in>set bks. all_ok bk"
    and "int (length bks) \<le> INT_MAX"
    and "concurrent bks schedule w = (pool, w')"
  shows "map fst pool = bks
         \<and> (\<forall>i<length bks. \<not> failed (snd (pool ! i))
               \<and> min 5 (count_list schedule (Run i)) \<le> stage (snd (pool ! i)))"
  using assms(4)
proof (induction schedule arbitrary: pool w' rule: rev_induct)
  case Nil
  then have "pool = map (\<lambda>bk. (bk, Start)) bks"
    by (simp add: concurrent_def)
  then show ?case
    by (simp add: comp_def)
next
  case (snoc e schedule)
  obtain pool0 w0 where before: "concurrent bks schedule w = (pool0, w0)"
    by (cases "concurrent bks schedule w")
  from snoc.IH [OF before]
  have bks0: "map fst pool0 = bks"
    and prog0: "\<And>i. i < length bks \<Longrightarrow> \<not> failed (snd (pool0 ! i))
                 \<and> min 5 (count_list schedule (Run i)) \<le> stage (snd (pool0 ! i))"
    by simp_all
  from bks0 have len0: "length pool0 = length bks"
    by (metis length_map)
  from concurrent_tally [OF assms(1) before]
  have count0: "visitor_count w0 1 = Some (Some (tally pool0))"
    by simp
  from snoc.prems before have fired: "fire e (pool0, w0) = (pool, w')"
    by (simp add: concurrent_snoc)
  show ?case
  proof (cases e)
    case (Wait d)
    with fired have "pool = pool0" by simp
    with bks0 prog0 Wait show ?thesis by simp
  next
    case (Run j)
    show ?thesis
    proof (cases "j < length pool0")
      case False
      with fired Run have "pool = pool0" by simp
      moreover from False len0 have "\<And>i. i < length bks \<Longrightarrow> Run j \<noteq> Run i"
        by auto
      ultimately show ?thesis
        using bks0 prog0 Run by simp
    next
      case True
      obtain bk t where p: "pool0 ! j = (bk, t)"
        by (cases "pool0 ! j")
      obtain t' w'' where s: "step bk t w0 = (t', w'')"
        by (cases "step bk t w0")
      from fired Run True p s have pool: "pool = pool0[j := (bk, t')]"
        by simp
      from bks0 True p have bk: "bk = bks ! j"
        by (metis fst_conv nth_map)
      with True len0 assms(2) have ok: "all_ok bk"
        by simp
      from prog0 [of j] True len0 p
      have t: "\<not> failed t" "min 5 (count_list schedule (Run j)) \<le> stage t"
        by simp_all
      have room: "incremented t = 0 \<longrightarrow> tally pool0 < INT_MAX"
        using tally_less [OF True] p assms(3) len0 by auto
      from step_progress [OF ok t(1) count0 room s]
      have t': "\<not> failed t'" "min 5 (Suc (stage t)) \<le> stage t'"
        by simp_all
      have "map fst pool = bks"
        using pool bks0 bk True by (simp add: map_update list_update_same_conv)
      moreover have "\<not> failed (snd (pool ! i))
          \<and> min 5 (count_list (schedule @ [e]) (Run i)) \<le> stage (snd (pool ! i))"
        if i: "i < length bks" for i
      proof (cases "i = j")
        case True
        with pool len0 i t t' Run show ?thesis
          by auto
      next
        case False
        with pool prog0 [OF i] Run show ?thesis
          by simp
      qed
      ultimately show ?thesis by simp
    qed
  qed
qed

lemma finished_not_failed: "5 \<le> stage t \<Longrightarrow> \<not> failed t \<Longrightarrow> completed t"
  by (cases t rule: failed.cases) simp_all

lemma concurrent_completes:
  assumes "visitor_count w 1 = Some (Some 0)"
    and "\<forall>bk\<in>set bks. all_ok bk"
    and "int (length bks) \<le> INT_MAX"
    and "\<forall>i<length bks. 5 \<le> count_list schedule (Run i)"
    and "concurrent bks schedule w = (pool, w')"
  shows "\<forall>p\<in>set pool. completed (snd p)"
proof
  fix p assume "p \<in> set pool"
  note prog = concurrent_progress [OF assms(1,2,3,5)]
  then have "length pool = length bks"
    by (metis length_map)
  with \<open>p \<in> set pool\<close> obtain i where i: "i < length bks" "p = pool ! i"
    by (metis in_set_conv_nth)
  with prog assms(4) have "\<not> failed (snd p)" "5 \<le> stage (snd p)"
    by auto
  then show "completed (snd p)"
    by (simp add: finished_not_failed)
qed

text \<open>
  Claim C9. \<open>N\<close> requests are in flight together against a store that starts at 0;
  their commands run in any order, each \<^verbatim>\<open>UPDATE\<close> being one command of the store.
  When every command completes, \<open>N\<close> is no more than the largest \<^verbatim>\<open>INT\<close> and the
  schedule gives every request its five turns, the store ends at exactly \<open>N\<close>. In
  general the store holds exactly \<open>N\<close> whenever all \<open>N\<close> requests have rendered their
  page, whatever the order was and whatever the cache held.
\<close>

theorem concurrent_no_lost_update:
  assumes "visitor_count w 1 = Some (Some 0)"
    and "concurrent bks schedule w = (pool, w')"
  shows "((\<forall>bk\<in>set bks. all_ok bk) \<and> int (length bks) \<le> INT_MAX
            \<and> (\<forall>i<length bks. 5 \<le> count_list schedule (Run i)) \<longrightarrow>
            visitor_count w' 1 = Some (Some (int (length bks))))
         \<and> ((\<forall>p\<in>set pool. completed (snd p)) \<longrightarrow>
            visitor_count w' 1 = Some (Some (int (length bks))))"
proof (intro conjI impI)
  assume fin: "\<forall>p\<in>set pool. completed (snd p)"
  with concurrent_tally [OF assms] tally_completed [OF fin]
  show "visitor_count w' 1 = Some (Some (int (length bks)))"
    by simp
next
  assume env: "(\<forall>bk\<in>set bks. all_ok bk) \<and> int (length bks) \<le> INT_MAX
      \<and> (\<forall>i<length bks. 5 \<le> count_list schedule (Run i))"
  then have fin: "\<forall>p\<in>set pool. completed (snd p)"
    using concurrent_completes [OF assms(1) _ _ _ assms(2)] by blast
  with concurrent_tally [OF assms] tally_completed [OF fin]
  show "visitor_count w' 1 = Some (Some (int (length bks)))"
    by simp
qed

text \<open>
  Two requests whose commands alternate: both miss the cache, both read 0 and both
  show 1, and the store holds 2.
\<close>

theorem concurrent_no_lost_update_witness:
  "visitor_count (seeded 0) 1 = Some (Some 0)
   \<and> map snd (fst (concurrent [healthy, healthy]
        [Run 0, Run 1, Run 0, Run 1, Run 0, Run 1, Run 0, Run 1, Run 0, Run 1] (seeded 0))) =
       [Finished (Inr (Some 1)), Finished (Inr (Some 1))]
   \<and> visitor_count (snd (concurrent [healthy, healthy]
        [Run 0, Run 1, Run 0, Run 1, Run 0, Run 1, Run 0, Run 1, Run 0, Run 1] (seeded 0))) 1 =
       Some (Some 2)"
proof -
  let ?bks = "[healthy, healthy]"
  let ?schedule = "[Run 0, Run 1, Run 0, Run 1, Run 0, Run 1, Run 0, Run 1, Run 0, Run 1]"
  let ?c = "concurrent ?bks ?schedule (seeded 0)"
  have start: "visitor_count (seeded 0) 1 = Some (Some 0)"
    by (simp add: seeded_def)
  have run: "?c = (fst ?c, snd ?c)"
    by simp
  have env: "(\<forall>bk\<in>set ?bks. all_ok bk) \<and> int (length ?bks) \<le> INT_MAX
      \<and> (\<forall>i<length ?bks. 5 \<le> count_list ?schedule (Run i))"
    by (simp add: all_ok_def healthy_def INT_MAX_def less_Suc_eq)
  from concurrent_no_lost_update [OF start run] env
  have "visitor_count (snd ?c) 1 = Some (Some (int (length ?bks)))"
    by blast
  moreover have "map snd (fst ?c) = [Finished (Inr (Some 1)), Finished (Inr (Some 1))]"
    by code_simp
  ultimately show ?thesis
    using start by simp
qed

end
